theory Spec2Isabelle
  imports Complex_Main "HOL-Library.AList" "HOL-Library.Code_Target_Nat"
begin

section \<open>Python strings\<close>

text \<open>
  A Python \<^verbatim>\<open>str\<close> is a sequence of Unicode code points. The tree-drawing glyphs the
  parser looks for lie outside ASCII, and the regular expressions of the source classify
  single code points, so a string is modelled as the list of its code points.
  \<open>pystr\<close> turns an ASCII literal into such a list.
\<close>

type_synonym str = "nat list"

definition pystr :: "string \<Rightarrow> str" where
  "pystr cs = map of_char cs"

text \<open>
  \<^verbatim>\<open>str.isspace\<close>, \<^verbatim>\<open>str.strip()\<close> and the regular expression class
  \<^verbatim>\<open>\s\<close> agree on what whitespace is: the 29 code points below
  (Unicode 14, as CPython 3.11 ships it).
\<close>

definition isspace :: "nat \<Rightarrow> bool" where
  "isspace c =
     ((9 \<le> c \<and> c \<le> 13) \<or> (28 \<le> c \<and> c \<le> 32) \<or> c = 133 \<or> c = 160 \<or> c = 5760 \<or>
      (8192 \<le> c \<and> c \<le> 8202) \<or> c = 8232 \<or> c = 8233 \<or> c = 8239 \<or> c = 8287 \<or>
      c = 12288)"

definition py_strip :: "str \<Rightarrow> str" where
  "py_strip t = rev (dropWhile isspace (rev (dropWhile isspace t)))"

text \<open>
  \<^verbatim>\<open>t.split(sep)\<close> for a one-character separator: one more part than there are
  separators, empty parts kept, so the result is never the empty list (and the first
  branch of the \<open>case\<close> below is never taken).
\<close>

fun py_split :: "nat \<Rightarrow> str \<Rightarrow> str list" where
  "py_split c [] = [[]]"
| "py_split c (x # xs) =
     (if x = c then [] # py_split c xs
      else (case py_split c xs of [] \<Rightarrow> [[x]] | p # ps \<Rightarrow> (x # p) # ps))"








section \<open>Version utilities\<close>







section \<open>The dependency graph\<close>

text \<open>
  The operations of Python that can raise where the source applies them: indexing a
  dictionary, unpacking or indexing the parts of a split, \<^verbatim>\<open>max\<close> of nothing and
  division. Each is a branch of the model that returns the exception as a value.
\<close>

datatype py_error = KeyError | ValueError | IndexError | ZeroDivisionError

text \<open>
  The two scores are Python floats. The model computes them in exact rational
  arithmetic: what is proved about them is proved about the formulas, not about
  rounding in binary64.
\<close>

record DependencyNode =
  ga :: str
  version :: str
  depth :: nat
  is_direct :: bool
  parents :: "str list"
  children :: "str list"
  centrality_score :: rat
  impact_score :: rat

text \<open>
  \<^verbatim>\<open>self.nodes\<close> is a dictionary, which keeps its keys in insertion order: an
  association list, new keys added at the end (\<open>AList.update\<close>), a stored node changed
  in place (\<open>AList.map_entry\<close>), looked up with \<open>map_of\<close>.
\<close>

record DependencyGraph =
  nodes :: "(str \<times> DependencyNode) list"
  root_project :: "str option"

definition empty_graph :: DependencyGraph where
  "empty_graph = \<lparr>nodes = [], root_project = None\<rparr>"

text \<open>The four glyphs of the tree drawing: U+2502, U+251C, U+2514 and U+2500.\<close>

definition VBAR :: nat where "VBAR = 9474"
definition TEE :: nat where "TEE = 9500"
definition ELL :: nat where "ELL = 9492"
definition HBAR :: nat where "HBAR = 9472"

definition is_tree_char :: "nat \<Rightarrow> bool" where
  "is_tree_char c = (c = VBAR \<or> c = TEE \<or> c = ELL \<or> c = HBAR \<or> isspace c)"

text \<open>
  \<^verbatim>\<open>_calculate_depth\<close>: the prefix is what the pattern of tree characters, a starred
  class anchored at the start, matches; it always matches, possibly nothing, so the
  source's branch for a failed match is never taken.
\<close>

definition calculate_depth :: "str \<Rightarrow> nat" where
  "calculate_depth line =
     (let prefix = takeWhile is_tree_char line;
          vertical_bars = count_list prefix VBAR;
          has_branch = (if TEE \<in> set prefix \<or> ELL \<in> set prefix then 1 else 0)
      in vertical_bars + has_branch)"

text \<open>
  The second substitution of \<^verbatim>\<open>_extract_ga_version\<close> removes every match of
  optional whitespace, an opening parenthesis, anything but a closing parenthesis, a
  closing parenthesis and optional whitespace. Scanning left to right, a match starts at
  a position exactly when the whitespace there is followed by an opening parenthesis that
  has a closing one somewhere after it; it then runs to the first closing parenthesis
  and over the whitespace behind it.
\<close>

function strip_parenthesized :: "str \<Rightarrow> str" where
  "strip_parenthesized t =
     (case t of
        [] \<Rightarrow> []
      | c # cs \<Rightarrow>
          (case dropWhile isspace t of
             [] \<Rightarrow> c # strip_parenthesized cs
           | x # r \<Rightarrow>
               if x = 40 \<and> 41 \<in> set r
               then strip_parenthesized (dropWhile isspace (tl (dropWhile (\<lambda>y. y \<noteq> 41) r)))
               else c # strip_parenthesized cs))"
  by pat_completeness auto
termination
proof (relation "measure length", goal_cases)
  case 1
  show ?case by simp
next
  case (2 t c cs)
  then show ?case by simp
next
  case (3 t c cs x r)
  have "length (tl (dropWhile (\<lambda>y. y \<noteq> 41) r)) \<le> length r"
    using length_dropWhile_le [of "\<lambda>y. y \<noteq> 41" r] by simp
  then have "length (dropWhile isspace (tl (dropWhile (\<lambda>y. y \<noteq> 41) r))) \<le> length r"
    using length_dropWhile_le [of isspace "tl (dropWhile (\<lambda>y. y \<noteq> 41) r)"] by simp
  moreover have "length (x # r) \<le> length t"
    using 3(2) length_dropWhile_le [of isspace t] by simp
  ultimately show ?case by simp
next
  case (4 t c cs x r)
  then show ?case by simp
qed

definition clean_line :: "str \<Rightarrow> str" where
  "clean_line line = py_strip (strip_parenthesized (dropWhile is_tree_char line))"

text \<open>
  \<^verbatim>\<open>_extract_ga_version\<close>: \<open>None\<close> stands for the pair \<^verbatim>\<open>(None, None)\<close>. With
  three parts or more, the key is the first two joined by a colon (code point 58) and
  the version is the last.
\<close>

definition extract_ga_version :: "str \<Rightarrow> (str \<times> str) option" where
  "extract_ga_version line =
     (let clean = clean_line line in
      if clean = [] then None
      else let parts = py_split 58 clean in
        if length parts \<ge> 3 then Some (parts ! 0 @ [58] @ parts ! 1, last parts)
        else None)"

text \<open>
  \<^verbatim>\<open>_add_node\<close>. The parent is given or \<^verbatim>\<open>None\<close>; \<^verbatim>\<open>if parent\<close> also fails
  on the empty string.
\<close>

definition add_node ::
  "DependencyGraph \<Rightarrow> str \<Rightarrow> str \<Rightarrow> nat \<Rightarrow> bool \<Rightarrow> str option \<Rightarrow> py_error + DependencyGraph" where
  "add_node g k v d dir parent =
     (let ns1 = (if map_of (nodes g) k = None
                 then AList.update k \<lparr>ga = k, version = v, depth = d, is_direct = dir,
                        parents = [], children = [], centrality_score = 0,
                        impact_score = 0\<rparr> (nodes g)
                 else nodes g)
      in case map_of ns1 k of
           None \<Rightarrow> Inl KeyError
         | Some node \<Rightarrow>
             (case parent of
                None \<Rightarrow> Inr (g\<lparr>nodes := ns1\<rparr>)
              | Some p \<Rightarrow>
                  if p \<noteq> [] \<and> p \<notin> set (parents node) then
                    (let ns2 = AList.map_entry k (\<lambda>n. n\<lparr>parents := parents n @ [p]\<rparr>) ns1
                     in case map_of ns2 p of
                          None \<Rightarrow> Inr (g\<lparr>nodes := ns2\<rparr>)
                        | Some pn \<Rightarrow>
                            if k \<notin> set (children pn)
                            then Inr (g\<lparr>nodes :=
                                   AList.map_entry p (\<lambda>n. n\<lparr>children := children n @ [k]\<rparr>) ns2\<rparr>)
                            else Inr (g\<lparr>nodes := ns2\<rparr>))
                  else Inr (g\<lparr>nodes := ns1\<rparr>)))"

text \<open>
  \<^verbatim>\<open>_calculate_scores\<close>. \<^verbatim>\<open>max\<close> of an empty sequence raises, and so does a
  division by zero.
\<close>

definition py_max :: "nat list \<Rightarrow> py_error + nat" where
  "py_max xs = (case xs of [] \<Rightarrow> Inl ValueError | x # r \<Rightarrow> Inr (fold max r x))"

definition py_truediv :: "nat \<Rightarrow> nat \<Rightarrow> py_error + rat" where
  "py_truediv a b = (if b = 0 then Inl ZeroDivisionError else Inr (of_nat a / of_nat b))"

definition degree :: "DependencyNode \<Rightarrow> nat" where
  "degree n = length (parents n) + length (children n)"

definition score_node :: "nat \<Rightarrow> nat \<Rightarrow> DependencyNode \<Rightarrow> py_error + DependencyNode" where
  "score_node max_degree max_depth n =
     (case py_truediv (degree n) max_degree of
        Inl e \<Rightarrow> Inl e
      | Inr centrality \<Rightarrow>
          (case py_truediv (depth n) (max_depth + 1) of
             Inl e \<Rightarrow> Inl e
           | Inr depth_penalty \<Rightarrow>
               (let direct_boost = (if is_direct n then 12 / 10 else 1);
                    impact = centrality * (1 - depth_penalty * (5 / 10)) * direct_boost
                in Inr (n\<lparr>centrality_score := centrality,
                           impact_score := min 1 (max 0 impact)\<rparr>))))"

fun score_nodes ::
  "nat \<Rightarrow> nat \<Rightarrow> (str \<times> DependencyNode) list \<Rightarrow> py_error + (str \<times> DependencyNode) list" where
  "score_nodes max_degree max_depth [] = Inr []"
| "score_nodes max_degree max_depth ((k, n) # r) =
     (case score_node max_degree max_depth n of
        Inl e \<Rightarrow> Inl e
      | Inr n' \<Rightarrow>
          (case score_nodes max_degree max_depth r of
             Inl e \<Rightarrow> Inl e
           | Inr r' \<Rightarrow> Inr ((k, n') # r')))"

definition calculate_scores :: "DependencyGraph \<Rightarrow> py_error + DependencyGraph" where
  "calculate_scores g =
     (if nodes g = [] then Inr g
      else case py_max (map (\<lambda>(k, n). degree n) (nodes g)) of
        Inl e \<Rightarrow> Inl e
      | Inr m1 \<Rightarrow>
          (case py_max (map (\<lambda>(k, n). depth n) (nodes g)) of
             Inl e \<Rightarrow> Inl e
           | Inr m2 \<Rightarrow>
               (case score_nodes (max m1 1) (max m2 1) (nodes g) of
                  Inl e \<Rightarrow> Inl e
                | Inr ns \<Rightarrow> Inr (g\<lparr>nodes := ns\<rparr>))))"

text \<open>
  The body of the loop of \<^verbatim>\<open>parse_tree_text\<close>. The state is the graph and
  \<^verbatim>\<open>depth_parents\<close>, the key last placed at each depth. \<open>place_node\<close> is what the
  body does with a line that carries a key.
\<close>

type_synonym parse_state = "DependencyGraph \<times> (nat \<rightharpoonup> str)"

definition place_node :: "parse_state \<Rightarrow> nat \<Rightarrow> str \<Rightarrow> str \<Rightarrow> py_error + parse_state" where
  "place_node st d k v =
     (let (g, depth_parents) = st in
      if d = 0 then
        (case add_node (g\<lparr>root_project := Some k\<rparr>) k v 0 True None of
           Inl e \<Rightarrow> Inl e
         | Inr g' \<Rightarrow> Inr (g', depth_parents(0 \<mapsto> k)))
      else
        (case add_node g k v d (d = 1) (depth_parents (d - 1)) of
           Inl e \<Rightarrow> Inl e
         | Inr g' \<Rightarrow>
             Inr (g', \<lambda>i. if i > d then None else (depth_parents(d \<mapsto> k)) i)))"

definition parse_line :: "parse_state \<Rightarrow> str \<Rightarrow> py_error + parse_state" where
  "parse_line st line =
     (if py_strip line = [] then Inr st
      else let d = calculate_depth line in
        case extract_ga_version line of
          None \<Rightarrow> Inr st
        | Some (k, v) \<Rightarrow> if k = [] then Inr st else place_node st d k v)"

fun parse_lines :: "parse_state \<Rightarrow> str list \<Rightarrow> py_error + parse_state" where
  "parse_lines st [] = Inr st"
| "parse_lines st (l # ls) =
     (case parse_line st l of Inl e \<Rightarrow> Inl e | Inr st' \<Rightarrow> parse_lines st' ls)"

definition tree_lines :: "str \<Rightarrow> str list" where
  "tree_lines tree_text = py_split 10 (py_strip tree_text)"

definition parse_tree_text :: "DependencyGraph \<Rightarrow> str \<Rightarrow> py_error + DependencyGraph" where
  "parse_tree_text g tree_text =
     (case parse_lines (g, Map.empty) (tree_lines tree_text) of
        Inl e \<Rightarrow> Inl e
      | Inr (g', depth_parents) \<Rightarrow> calculate_scores g')"

definition parse_dependency_tree :: "str \<Rightarrow> py_error + DependencyGraph" where
  "parse_dependency_tree tree_text = parse_tree_text empty_graph tree_text"

subsection \<open>Queries\<close>

text \<open>
  \<^verbatim>\<open>to_dict\<close> rounds both scores to three decimals. On exact rationals Python's rule is
  rounding to the nearest, a tie going to the even neighbour.
\<close>

definition round_half_even :: "rat \<Rightarrow> int" where
  "round_half_even x =
     (let f = \<lfloor>x\<rfloor>; r = x - of_int f
      in if r < 1 / 2 then f else if 1 / 2 < r then f + 1 else if even f then f else f + 1)"

definition py_round3 :: "rat \<Rightarrow> rat" where
  "py_round3 x = of_int (round_half_even (x * 1000)) / 1000"

record NodeDict =
  d_ga :: str
  d_version :: str
  d_depth :: nat
  d_is_direct :: bool
  d_parents :: "str list"
  d_children :: "str list"
  d_centrality_score :: rat
  d_impact_score :: rat

definition to_dict :: "DependencyNode \<Rightarrow> NodeDict" where
  "to_dict n =
     \<lparr>d_ga = ga n, d_version = version n, d_depth = depth n, d_is_direct = is_direct n,
      d_parents = parents n, d_children = children n,
      d_centrality_score = py_round3 (centrality_score n),
      d_impact_score = py_round3 (impact_score n)\<rparr>"

record DependencyInfo = NodeDict +
  risk_assessment :: str

text \<open>\<^verbatim>\<open>get_dependency_info\<close>: \<open>None\<close> is Python's \<^verbatim>\<open>None\<close>, returned for an unknown key.\<close>

definition get_dependency_info :: "DependencyGraph \<Rightarrow> str \<Rightarrow> DependencyInfo option" where
  "get_dependency_info g k =
     (case map_of (nodes g) k of
        None \<Rightarrow> None
      | Some node \<Rightarrow>
          (let info = to_dict node;
               risk =
                 (if 7 / 10 < impact_score node
                  then pystr ''HIGH - Critical dependency, changes may have wide impact''
                  else if 4 / 10 < impact_score node
                  then pystr ''MEDIUM - Moderate impact, test thoroughly after changes''
                  else pystr ''LOW - Isolated dependency, changes likely contained'')
           in Some \<lparr>d_ga = d_ga info, d_version = d_version info, d_depth = d_depth info,
                     d_is_direct = d_is_direct info, d_parents = d_parents info,
                     d_children = d_children info,
                     d_centrality_score = d_centrality_score info,
                     d_impact_score = d_impact_score info, risk_assessment = risk\<rparr>))"

record HighRisk =
  hr_ga :: str
  hr_impact_score :: rat
  hr_version :: str

record Summary =
  project :: "str option"
  total_dependencies :: nat
  direct_count :: nat
  transitive_count :: nat
  max_depth :: nat
  high_risk_dependencies :: "HighRisk list"
  direct_dependencies :: "(str \<times> NodeDict) list"
  transitive_dependencies :: "(str \<times> NodeDict) list"
  all_dependencies :: "(str \<times> NodeDict) list"

text \<open>
  \<^verbatim>\<open>get_llm_summary\<close> returns either the dictionary with the single key
  \<^verbatim>\<open>"error"\<close> or the summary. Python's sort is stable, also when reversed, and so
  is \<open>sort_key\<close> on the negated score.
\<close>

datatype llm_summary = SummaryError str | SummaryOk Summary

definition get_llm_summary :: "DependencyGraph \<Rightarrow> py_error + llm_summary" where
  "get_llm_summary g =
     (if nodes g = [] then Inr (SummaryError (pystr ''No dependencies parsed''))
      else
        (let direct_deps = map (\<lambda>(k, n). (k, to_dict n)) (filter (\<lambda>(k, n). is_direct n) (nodes g));
             transitive_deps =
               map (\<lambda>(k, n). (k, to_dict n)) (filter (\<lambda>(k, n). \<not> is_direct n) (nodes g));
             high_risk =
               sort_key (\<lambda>h. - hr_impact_score h)
                 (map (\<lambda>(k, n). \<lparr>hr_ga = k, hr_impact_score = impact_score n, hr_version = version n\<rparr>)
                    (filter (\<lambda>(k, n). 5 / 10 < impact_score n) (nodes g)))
         in case py_max (map (\<lambda>(k, n). depth n) (nodes g)) of
              Inl e \<Rightarrow> Inl e
            | Inr m \<Rightarrow>
                Inr (SummaryOk
                  \<lparr>project = root_project g,
                   total_dependencies = length (nodes g),
                   direct_count = length direct_deps,
                   transitive_count = length transitive_deps,
                   max_depth = m,
                   high_risk_dependencies = take 10 high_risk,
                   direct_dependencies = direct_deps,
                   transitive_dependencies = transitive_deps,
                   all_dependencies = map (\<lambda>(k, n). (k, to_dict n)) (nodes g)\<rparr>)))"

section \<open>The upgrade strategy\<close>











section \<open>Notions used to state the properties\<close>

text \<open>
  A key has the form group:artifact when splitting it at the colon gives exactly two
  parts. A line that the loop does not skip carries an entry: its depth, key and version;
  \<open>place_nodes\<close> runs the loop over entries instead of lines.

  The effect of \<^verbatim>\<open>_add_node\<close> on the dictionary, node by node: \<open>with_new\<close> is the
  dictionary once the node of a new key has been created; \<open>links g k p\<close> says that the
  parent \<open>p\<close> is given, is not the empty string and is not yet among the parents of
  \<open>k\<close>, so that it is recorded; \<open>link_upd\<close> is what then happens to the node stored
  under \<open>x\<close>.

  \<open>sighting\<close> is the first entry of a key, \<open>graph_inv\<close> what holds of the state of
  the loop after the entries \<open>es\<close>, and \<open>scored\<close> a node with its two scores set.
\<close>

definition ga_ok :: "str \<Rightarrow> bool" where
  "ga_ok k = (length (py_split 58 k) = 2)"

definition line_entry :: "str \<Rightarrow> (nat \<times> str \<times> str) option" where
  "line_entry line =
     (if py_strip line = [] then None
      else case extract_ga_version line of
        None \<Rightarrow> None
      | Some (k, v) \<Rightarrow> if k = [] then None else Some (calculate_depth line, k, v))"

definition tree_entries :: "str \<Rightarrow> (nat \<times> str \<times> str) list" where
  "tree_entries tree_text = List.map_filter line_entry (tree_lines tree_text)"

fun place_nodes :: "parse_state \<Rightarrow> (nat \<times> str \<times> str) list \<Rightarrow> py_error + parse_state" where
  "place_nodes st [] = Inr st"
| "place_nodes st ((d, k, v) # es) =
     (case place_node st d k v of Inl e \<Rightarrow> Inl e | Inr st' \<Rightarrow> place_nodes st' es)"

definition new_node :: "str \<Rightarrow> str \<Rightarrow> nat \<Rightarrow> bool \<Rightarrow> DependencyNode" where
  "new_node k v d dir =
     \<lparr>ga = k, version = v, depth = d, is_direct = dir, parents = [], children = [],
      centrality_score = 0, impact_score = 0\<rparr>"

definition with_new ::
  "DependencyGraph \<Rightarrow> str \<Rightarrow> str \<Rightarrow> nat \<Rightarrow> bool \<Rightarrow> str \<Rightarrow> DependencyNode option" where
  "with_new g k v d dir x =
     (if x = k \<and> map_of (nodes g) k = None then Some (new_node k v d dir)
      else map_of (nodes g) x)"

definition links :: "DependencyGraph \<Rightarrow> str \<Rightarrow> str option \<Rightarrow> bool" where
  "links g k p =
     (case p of
        None \<Rightarrow> False
      | Some q \<Rightarrow>
          q \<noteq> [] \<and> q \<notin> set (case map_of (nodes g) k of None \<Rightarrow> [] | Some n \<Rightarrow> parents n))"

definition link_upd ::
  "DependencyGraph \<Rightarrow> str \<Rightarrow> str option \<Rightarrow> str \<Rightarrow> DependencyNode \<Rightarrow> DependencyNode" where
  "link_upd g k p x n =
     n\<lparr>parents := (if x = k \<and> links g k p then parents n @ [the p] else parents n),
       children := (if p = Some x \<and> links g k p \<and> k \<notin> set (children n)
                    then children n @ [k] else children n)\<rparr>"

definition sighting :: "(nat \<times> str \<times> str) list \<Rightarrow> str \<Rightarrow> (nat \<times> str \<times> str) option" where
  "sighting es k = find (\<lambda>e. fst (snd e) = k) es"

definition graph_inv :: "(nat \<times> str \<times> str) list \<Rightarrow> parse_state \<Rightarrow> bool" where
  "graph_inv es st =
     (distinct (map fst (nodes (fst st))) \<and>
      (\<forall>x. (map_of (nodes (fst st)) x = None) = (sighting es x = None)) \<and>
      (\<forall>x n. map_of (nodes (fst st)) x = Some n \<longrightarrow>
         ga n = x \<and> sighting es x = Some (depth n, x, version n) \<and>
         is_direct n = (depth n \<le> 1) \<and> distinct (parents n) \<and> distinct (children n) \<and>
         (\<forall>q \<in> set (parents n). sighting es q \<noteq> None)) \<and>
      (\<forall>i q. snd st i = Some q \<longrightarrow> sighting es q \<noteq> None))"

definition scored :: "nat \<Rightarrow> nat \<Rightarrow> DependencyNode \<Rightarrow> DependencyNode" where
  "scored m1 m2 n =
     n\<lparr>centrality_score := of_nat (degree n) / of_nat m1,
       impact_score :=
         min 1 (max 0 (of_nat (degree n) / of_nat m1 *
                       (1 - of_nat (depth n) / of_nat (m2 + 1) * (5 / 10)) *
                       (if is_direct n then 12 / 10 else 1)))\<rparr>"



definition sample_tree :: str where
  "sample_tree =
     [10] @ pystr ''com.random-x:part-finder-service-api:1.2.39-SNAPSHOT'' @ [10] @
     [TEE, HBAR, HBAR, 32] @
       pystr ''org.springframework.boot:spring-boot-starter-tomcat:3.5.3'' @ [10] @
     [VBAR, 32, 32, 32, ELL, HBAR, HBAR, 32] @
       pystr ''org.apache.tomcat.embed:tomcat-embed-core:10.1.42'' @ [10] @
     [TEE, HBAR, HBAR, 32] @
       pystr ''com.fasterxml.jackson.core:jackson-databind:2.19.1'' @ [10]"

definition sample_graph :: DependencyGraph where
  "sample_graph =
     \<lparr>nodes =
        [(pystr ''com.random-x:part-finder-service-api'',
          \<lparr>ga = pystr ''com.random-x:part-finder-service-api'',
           version = pystr ''1.2.39-SNAPSHOT'', depth = 0, is_direct = True, parents = [],
           children = [pystr ''org.springframework.boot:spring-boot-starter-tomcat'',
                       pystr ''com.fasterxml.jackson.core:jackson-databind''],
           centrality_score = 1, impact_score = 1\<rparr>),
         (pystr ''org.springframework.boot:spring-boot-starter-tomcat'',
          \<lparr>ga = pystr ''org.springframework.boot:spring-boot-starter-tomcat'',
           version = pystr ''3.5.3'', depth = 1, is_direct = True,
           parents = [pystr ''com.random-x:part-finder-service-api''],
           children = [pystr ''org.apache.tomcat.embed:tomcat-embed-core''],
           centrality_score = 1, impact_score = 1\<rparr>),
         (pystr ''org.apache.tomcat.embed:tomcat-embed-core'',
          \<lparr>ga = pystr ''org.apache.tomcat.embed:tomcat-embed-core'',
           version = pystr ''10.1.42'', depth = 2, is_direct = False,
           parents = [pystr ''org.springframework.boot:spring-boot-starter-tomcat''],
           children = [], centrality_score = 1 / 2, impact_score = 1 / 3\<rparr>),
         (pystr ''com.fasterxml.jackson.core:jackson-databind'',
          \<lparr>ga = pystr ''com.fasterxml.jackson.core:jackson-databind'',
           version = pystr ''2.19.1'', depth = 1, is_direct = True,
           parents = [pystr ''com.random-x:part-finder-service-api''],
           children = [], centrality_score = 1 / 2, impact_score = 1 / 2\<rparr>)],
      root_project = Some (pystr ''com.random-x:part-finder-service-api'')\<rparr>"





text \<open>
  A tree is well formed when its first entry is at depth 0 and every later entry is at
  depth 1 or more, at most one level deeper than the entry before it, and does not repeat
  the key of the first. \<open>tree_inv\<close> is what holds of the state of the loop while such a
  tree is read. A tree has a single root line when only its first entry is at depth 0.
\<close>

fun chain_ok :: "str \<Rightarrow> nat \<Rightarrow> (nat \<times> str \<times> str) list \<Rightarrow> bool" where
  "chain_ok r prev [] = True"
| "chain_ok r prev ((d, k, v) # es) = (1 \<le> d \<and> d \<le> prev + 1 \<and> k \<noteq> r \<and> chain_ok r d es)"

definition well_formed_tree :: "(nat \<times> str \<times> str) list \<Rightarrow> bool" where
  "well_formed_tree es =
     (case es of [] \<Rightarrow> False | (d, r, v) # rest \<Rightarrow> d = 0 \<and> chain_ok r 0 rest)"

definition tree_inv :: "str \<Rightarrow> nat \<Rightarrow> parse_state \<Rightarrow> bool" where
  "tree_inv r cur st =
     (root_project (fst st) = Some r \<and>
      (\<exists>n. map_of (nodes (fst st)) r = Some n \<and> depth n = 0 \<and> parents n = []) \<and>
      (\<forall>x m. map_of (nodes (fst st)) x = Some m \<and> x \<noteq> r \<longrightarrow> 1 \<le> depth m \<and> parents m \<noteq> []) \<and>
      (\<forall>i \<le> cur. \<exists>q. snd st i = Some q \<and> q \<noteq> []))"





text \<open>
  Three more trees with the graphs they parse to: one with a second line at depth 0, one
  with a line two levels below the line before it, and one where a key is sighted at two
  depths (\<open>diamond_prefix\<close> and \<open>diamond_last\<close> are its lines).
\<close>

definition two_roots_tree :: str where
  "two_roots_tree =
     pystr ''org.example:app:1.0'' @ [10] @
     pystr ''org.example:other:2.0'' @ [10] @
     [TEE, HBAR, HBAR, 32] @ pystr ''org.example:lib:3.0''"

definition two_roots_graph :: DependencyGraph where
  "two_roots_graph =
     \<lparr>nodes =
        [(pystr ''org.example:app'',
          \<lparr>ga = pystr ''org.example:app'', version = pystr ''1.0'', depth = 0,
           is_direct = True, parents = [], children = [], centrality_score = 0,
           impact_score = 0\<rparr>),
         (pystr ''org.example:other'',
          \<lparr>ga = pystr ''org.example:other'', version = pystr ''2.0'', depth = 0,
           is_direct = True, parents = [], children = [pystr ''org.example:lib''],
           centrality_score = 1, impact_score = 1\<rparr>),
         (pystr ''org.example:lib'',
          \<lparr>ga = pystr ''org.example:lib'', version = pystr ''3.0'', depth = 1,
           is_direct = True, parents = [pystr ''org.example:other''], children = [],
           centrality_score = 1, impact_score = 9 / 10\<rparr>)],
      root_project = Some (pystr ''org.example:other'')\<rparr>"

definition orphan_tree :: str where
  "orphan_tree =
     pystr ''org.example:app:1.0'' @ [10] @
     [VBAR, 32, 32, 32, TEE, HBAR, HBAR, 32] @ pystr ''org.example:lib:3.0''"

definition orphan_graph :: DependencyGraph where
  "orphan_graph =
     \<lparr>nodes =
        [(pystr ''org.example:app'',
          \<lparr>ga = pystr ''org.example:app'', version = pystr ''1.0'', depth = 0,
           is_direct = True, parents = [], children = [], centrality_score = 0,
           impact_score = 0\<rparr>),
         (pystr ''org.example:lib'',
          \<lparr>ga = pystr ''org.example:lib'', version = pystr ''3.0'', depth = 2,
           is_direct = False, parents = [], children = [], centrality_score = 0,
           impact_score = 0\<rparr>)],
      root_project = Some (pystr ''org.example:app'')\<rparr>"

definition diamond_tree :: str where
  "diamond_tree =
     pystr ''org.example:app:1.0'' @ [10] @
     [TEE, HBAR, HBAR, 32] @ pystr ''org.example:lib:3.0'' @ [10] @
     [TEE, HBAR, HBAR, 32] @ pystr ''org.example:web:2.0'' @ [10] @
     [VBAR, 32, 32, 32, ELL, HBAR, HBAR, 32] @ pystr ''org.example:lib:3.1''"

definition diamond_graph :: DependencyGraph where
  "diamond_graph =
     \<lparr>nodes =
        [(pystr ''org.example:app'',
          \<lparr>ga = pystr ''org.example:app'', version = pystr ''1.0'', depth = 0,
           is_direct = True, parents = [],
           children = [pystr ''org.example:lib'', pystr ''org.example:web''],
           centrality_score = 1, impact_score = 1\<rparr>),
         (pystr ''org.example:lib'',
          \<lparr>ga = pystr ''org.example:lib'', version = pystr ''3.0'', depth = 1,
           is_direct = True,
           parents = [pystr ''org.example:app'', pystr ''org.example:web''],
           children = [], centrality_score = 1, impact_score = 9 / 10\<rparr>),
         (pystr ''org.example:web'',
          \<lparr>ga = pystr ''org.example:web'', version = pystr ''2.0'', depth = 1,
           is_direct = True, parents = [pystr ''org.example:app''],
           children = [pystr ''org.example:lib''],
           centrality_score = 1, impact_score = 9 / 10\<rparr>)],
      root_project = Some (pystr ''org.example:app'')\<rparr>"

definition diamond_prefix :: "str list" where
  "diamond_prefix =
     [pystr ''org.example:app:1.0'',
      [TEE, HBAR, HBAR, 32] @ pystr ''org.example:lib:3.0'',
      [TEE, HBAR, HBAR, 32] @ pystr ''org.example:web:2.0'']"

definition diamond_last :: str where
  "diamond_last = [VBAR, 32, 32, 32, ELL, HBAR, HBAR, 32] @ pystr ''org.example:lib:3.1''"

section \<open>Properties of the version utilities and of the queries\<close>




text \<open>
  Claim C9. \<^verbatim>\<open>get_dependency_info\<close> returns \<^verbatim>\<open>None\<close>, and raises nothing, exactly
  for a key that is not in the graph; \<^verbatim>\<open>get_llm_summary\<close> returns the error marker
  exactly when the graph has no node, and the summary exactly when it has one.
\<close>

theorem queries_signal_absence:
  "(get_dependency_info g k = None) = (map_of (nodes g) k = None) \<and>
   (get_llm_summary g = Inr (SummaryError (pystr ''No dependencies parsed''))) = (nodes g = []) \<and>
   (\<exists>s. get_llm_summary g = Inr (SummaryOk s)) = (nodes g \<noteq> [])"
proof -
  have a: "(get_dependency_info g k = None) = (map_of (nodes g) k = None)"
    by (simp add: get_dependency_info_def Let_def split: option.splits)
  have b: "nodes g \<noteq> [] \<Longrightarrow> \<exists>s. get_llm_summary g = Inr (SummaryOk s)"
    by (cases "nodes g") (simp_all add: get_llm_summary_def py_max_def Let_def)
  have c: "nodes g = [] \<Longrightarrow> get_llm_summary g = Inr (SummaryError (pystr ''No dependencies parsed''))"
    by (simp add: get_llm_summary_def)
  from a b c show ?thesis by (cases "nodes g = []") auto
qed

theorem queries_signal_absence_witness:
  "get_dependency_info empty_graph (pystr ''org.example:missing'') = None \<and>
   get_llm_summary empty_graph = Inr (SummaryError (pystr ''No dependencies parsed''))"
  using queries_signal_absence [of empty_graph "pystr ''org.example:missing''"]
  by (simp add: empty_graph_def)

section \<open>Properties of the parser\<close>

lemma py_split_not_Nil: "py_split c t \<noteq> []"
  by (induction t) (auto split: list.splits)

lemma py_split_no_sep: "p \<in> set (py_split c t) \<Longrightarrow> c \<notin> set p"
  by (induction t arbitrary: p) (auto split: list.splits if_splits)

lemma py_split_plain: "c \<notin> set t \<Longrightarrow> py_split c t = [t]"
  by (induction t) auto

lemma py_split_append: "c \<notin> set a \<Longrightarrow> py_split c (a @ c # t) = a # py_split c t"
  by (induction a) (auto split: list.splits)

lemma ga_ok_join: "58 \<notin> set a \<Longrightarrow> 58 \<notin> set b \<Longrightarrow> ga_ok (a @ 58 # b)"
  by (simp add: ga_ok_def py_split_append py_split_plain)

lemma extract_ga_ok:
  assumes "extract_ga_version line = Some (k, v)"
  shows "ga_ok k"
proof -
  let ?parts = "py_split 58 (clean_line line)"
  from assms have len: "3 \<le> length ?parts" and k: "k = ?parts ! 0 @ [58] @ ?parts ! 1"
    by (auto simp: extract_ga_version_def Let_def split: if_splits)
  from len have "0 < length ?parts" "1 < length ?parts" by linarith+
  then have "?parts ! 0 \<in> set ?parts" "?parts ! 1 \<in> set ?parts"
    by (blast intro: nth_mem)+
  then have "58 \<notin> set (?parts ! 0)" "58 \<notin> set (?parts ! 1)"
    by (auto dest: py_split_no_sep)
  with k show ?thesis by (simp add: ga_ok_join)
qed

lemma ga_ok_not_Nil: "ga_ok k \<Longrightarrow> k \<noteq> []"
  by (auto simp: ga_ok_def)

lemma line_entry_ga_ok: "line_entry l = Some (d, k, v) \<Longrightarrow> ga_ok k"
  by (auto simp: line_entry_def split: if_splits option.splits dest: extract_ga_ok)

lemma parse_line_entry:
  "parse_line st l = (case line_entry l of None \<Rightarrow> Inr st | Some (d, k, v) \<Rightarrow> place_node st d k v)"
  by (auto simp: parse_line_def line_entry_def Let_def split: option.splits)

lemma parse_lines_entries: "parse_lines st ls = place_nodes st (List.map_filter line_entry ls)"
proof (induction ls arbitrary: st)
  case Nil
  show ?case by (simp add: map_filter_simps)
next
  case (Cons l ls)
  show ?case
  proof (cases "line_entry l")
    case None
    then show ?thesis using Cons by (simp add: parse_line_entry map_filter_simps)
  next
    case (Some e)
    obtain d k v where "e = (d, k, v)" by (cases e)
    with Some show ?thesis using Cons
      by (simp add: parse_line_entry map_filter_simps split: sum.splits)
  qed
qed

lemma map_fst_map_entry: "map fst (AList.map_entry k f xs) = map fst xs"
  by (induction xs) auto

lemma add_node_total: "\<exists>g'. add_node g k v d dir p = Inr g'"
  by (auto simp: add_node_def Let_def update_conv' split: option.splits)

lemma link_upd_id: "\<not> links g k p \<Longrightarrow> link_upd g k p x n = n"
  by (simp add: link_upd_def)

lemma map_of_first_step:
  "map_of (if map_of (nodes g) k = None
           then AList.update k \<lparr>ga = k, version = v, depth = d, is_direct = dir,
                  parents = [], children = [], centrality_score = 0,
                  impact_score = 0\<rparr> (nodes g)
           else nodes g) x = with_new g k v d dir x"
  by (simp add: with_new_def new_node_def update_conv')

lemma with_new_key: "with_new g k v d dir k \<noteq> None"
  by (simp add: with_new_def)

lemma add_node_lookup:
  assumes "add_node g k v d dir p = Inr g'"
  shows "map_of (nodes g') x = map_option (link_upd g k p x) (with_new g k v d dir x)"
proof -
  define ns1 where "ns1 = (if map_of (nodes g) k = None
           then AList.update k \<lparr>ga = k, version = v, depth = d, is_direct = dir,
                  parents = [], children = [], centrality_score = 0,
                  impact_score = 0\<rparr> (nodes g)
           else nodes g)"
  have ns1: "\<And>y. map_of ns1 y = with_new g k v d dir y"
    unfolding ns1_def by (rule map_of_first_step)
  obtain node where node: "with_new g k v d dir k = Some node"
    using with_new_key [of g k v d dir] by auto
  have pn: "parents node = (case map_of (nodes g) k of None \<Rightarrow> [] | Some n \<Rightarrow> parents n)"
    using node by (auto simp: with_new_def new_node_def split: if_splits option.splits)
  show ?thesis
  proof (cases "links g k p")
    case False
    then have "g' = g\<lparr>nodes := ns1\<rparr>"
      using assms node ns1 pn unfolding add_node_def ns1_def [symmetric] Let_def
      by (auto simp: links_def split: option.splits if_splits)
    then show ?thesis using False ns1
      by (cases "with_new g k v d dir x") (simp_all add: link_upd_id)
  next
    case True
    then obtain q where q: "p = Some q" "q \<noteq> []" "q \<notin> set (parents node)"
      using pn by (auto simp: links_def split: option.splits)
    define ns2 where "ns2 = AList.map_entry k (\<lambda>n. n\<lparr>parents := parents n @ [q]\<rparr>) ns1"
    have ns2: "\<And>y. map_of ns2 y =
        (if y = k then Some (node\<lparr>parents := parents node @ [q]\<rparr>) else with_new g k v d dir y)"
      unfolding ns2_def using node ns1 by (simp add: map_of_map_entry)
    show ?thesis
    proof (cases "map_of ns2 q")
      case None
      then have g': "g' = g\<lparr>nodes := ns2\<rparr>"
        using assms node ns1 q
        unfolding add_node_def ns1_def [symmetric] Let_def
        by (simp add: ns2_def)
      from None ns2 have "q \<noteq> k" "with_new g k v d dir q = None"
        by (auto split: if_splits)
      then show ?thesis using g' ns2 True q node
        by (cases "with_new g k v d dir x") (auto simp: link_upd_def)
    next
      case (Some pnode)
      show ?thesis
      proof (cases "k \<in> set (children pnode)")
        case True
        then have g': "g' = g\<lparr>nodes := ns2\<rparr>"
          using assms node ns1 q Some
          unfolding add_node_def ns1_def [symmetric] Let_def
          by (simp add: ns2_def)
        show ?thesis using g' ns2 \<open>links g k p\<close> q node Some True
          by (cases "with_new g k v d dir x") (auto simp: link_upd_def split: if_splits)
      next
        case False
        then have g': "g' = g\<lparr>nodes :=
            AList.map_entry q (\<lambda>n. n\<lparr>children := children n @ [k]\<rparr>) ns2\<rparr>"
          using assms node ns1 q Some
          unfolding add_node_def ns1_def [symmetric] Let_def
          by (simp add: ns2_def)
        show ?thesis using g' ns2 \<open>links g k p\<close> q node Some False
          by (cases "with_new g k v d dir x")
             (auto simp: link_upd_def map_of_map_entry split: if_splits)
      qed
    qed
  qed
qed

lemma add_node_keys:
  assumes "add_node g k v d dir p = Inr g'"
  shows "root_project g' = root_project g"
    and "map fst (nodes g') =
           (if k \<in> set (map fst (nodes g)) then map fst (nodes g) else map fst (nodes g) @ [k])"
proof -
  show "root_project g' = root_project g"
    using assms by (auto simp: add_node_def Let_def split: option.splits if_splits)
  have keys: "(map_of (nodes g) k = None) = (k \<notin> set (map fst (nodes g)))"
    by (simp add: map_of_eq_None_iff)
  show "map fst (nodes g') =
           (if k \<in> set (map fst (nodes g)) then map fst (nodes g) else map fst (nodes g) @ [k])"
    using assms keys
    by (auto simp: add_node_def Let_def map_fst_map_entry update_keys split: option.splits if_splits)
qed

lemma place_node_total: "\<exists>st'. place_node st d k v = Inr st'"
proof -
  obtain g dp where st: "st = (g, dp)" by (cases st)
  obtain g0 where "add_node (g\<lparr>root_project := Some k\<rparr>) k v 0 True None = Inr g0"
    using add_node_total by blast
  moreover obtain g1 where "add_node g k v d (d = 1) (dp (d - 1)) = Inr g1"
    using add_node_total by blast
  ultimately show ?thesis using st by (simp add: place_node_def)
qed

lemma place_nodes_total: "\<exists>st'. place_nodes st es = Inr st'"
proof (induction es arbitrary: st)
  case Nil
  show ?case by simp
next
  case (Cons e es)
  obtain d k v where e: "e = (d, k, v)" by (cases e)
  obtain st1 where "place_node st d k v = Inr st1" using place_node_total by blast
  with Cons [of st1] e show ?case by simp
qed

lemma score_node_eq: "m1 \<noteq> 0 \<Longrightarrow> score_node m1 m2 n = Inr (scored m1 m2 n)"
  by (simp add: score_node_def py_truediv_def scored_def Let_def)

lemma score_nodes_eq:
  "m1 \<noteq> 0 \<Longrightarrow> score_nodes m1 m2 ns = Inr (map (\<lambda>(k, n). (k, scored m1 m2 n)) ns)"
  by (induction ns) (auto simp: score_node_eq)

lemma py_max_Cons: "xs \<noteq> [] \<Longrightarrow> py_max xs = Inr (Max (set xs))"
proof (cases xs)
  case Nil
  assume "xs \<noteq> []"
  with Nil show ?thesis by simp
next
  case (Cons a r)
  have "fold max r a = Max (set (a # r))" by (rule Max.set_eq_fold [symmetric])
  with Cons show ?thesis by (simp add: py_max_def)
qed

lemma calculate_scores_eq:
  "calculate_scores g =
     Inr (if nodes g = [] then g
          else g\<lparr>nodes := map (\<lambda>(k, n). (k, scored (max (Max (set (map (\<lambda>(k, n). degree n) (nodes g)))) 1)
                                           (max (Max (set (map (\<lambda>(k, n). depth n) (nodes g)))) 1) n))
                               (nodes g)\<rparr>)"
  by (simp add: calculate_scores_def py_max_Cons score_nodes_eq)

lemma parse_tree_text_total: "\<exists>g'. parse_tree_text g t = Inr g'"
proof -
  obtain st where "parse_lines (g, Map.empty) (tree_lines t) = Inr st"
    using place_nodes_total [of "(g, Map.empty)" "List.map_filter line_entry (tree_lines t)"]
    unfolding parse_lines_entries by blast
  then show ?thesis
    by (cases st) (simp add: parse_tree_text_def calculate_scores_eq)
qed

lemma sighting_snoc:
  "sighting (es @ [e]) x =
     (case sighting es x of Some s \<Rightarrow> Some s | None \<Rightarrow> if fst (snd e) = x then Some e else None)"
  by (induction es) (auto simp: sighting_def)

lemma sighting_key: "sighting es x = Some (d, k, v) \<Longrightarrow> k = x"
  by (induction es) (auto simp: sighting_def split: if_splits)

lemma graph_inv_init: "graph_inv [] (empty_graph, Map.empty)"
  by (simp add: graph_inv_def empty_graph_def sighting_def)

lemma link_upd_fields:
  "ga (link_upd g k p x n) = ga n"
  "version (link_upd g k p x n) = version n"
  "depth (link_upd g k p x n) = depth n"
  "is_direct (link_upd g k p x n) = is_direct n"
  "parents (link_upd g k p x n) =
     (if x = k \<and> links g k p then parents n @ [the p] else parents n)"
  "children (link_upd g k p x n) =
     (if p = Some x \<and> links g k p \<and> k \<notin> set (children n) then children n @ [k]
      else children n)"
  by (simp_all add: link_upd_def)

lemma with_new_cases:
  "with_new g k v d dir x = Some n \<Longrightarrow>
     (x = k \<and> map_of (nodes g) k = None \<and> n = new_node k v d dir) \<or>
     map_of (nodes g) x = Some n"
  by (auto simp: with_new_def split: if_splits)

lemma with_new_None: "(with_new g k v d dir x = None) = (x \<noteq> k \<and> map_of (nodes g) x = None)"
  by (auto simp: with_new_def)

lemma links_fresh:
  "links g k p \<Longrightarrow> with_new g k v d dir k = Some n \<Longrightarrow> the p \<notin> set (parents n)"
  by (auto simp: links_def with_new_def new_node_def split: option.splits if_splits)

lemma links_Some: "links g k p \<Longrightarrow> \<exists>q. p = Some q \<and> q \<noteq> []"
  by (auto simp: links_def split: option.splits)

lemma place_node_cases:
  assumes "place_node (g, dp) d k v = Inr (g', dp')"
  shows "\<exists>gin. nodes gin = nodes g \<and>
           root_project gin = (if d = 0 then Some k else root_project g) \<and>
           add_node gin k v d (d \<le> 1) (if d = 0 then None else dp (d - 1)) = Inr g' \<and>
           dp' = (if d = 0 then dp(0 \<mapsto> k)
                  else (\<lambda>i. if i > d then None else (dp(d \<mapsto> k)) i))"
proof (cases "d = 0")
  case True
  with assms have "add_node (g\<lparr>root_project := Some k\<rparr>) k v 0 True None = Inr g'"
    and "dp' = dp(0 \<mapsto> k)"
    by (auto simp: place_node_def split: sum.splits)
  with True show ?thesis
    by (intro exI [of _ "g\<lparr>root_project := Some k\<rparr>"]) simp
next
  case False
  then have eq: "(d = 1) = (d \<le> 1)" by auto
  from False assms have "add_node g k v d (d = 1) (dp (d - 1)) = Inr g'"
    and "dp' = (\<lambda>i. if i > d then None else (dp(d \<mapsto> k)) i)"
    by (auto simp: place_node_def split: sum.splits)
  with False eq show ?thesis
    by (intro exI [of _ g]) simp
qed

lemma graph_inv_step:
  assumes inv: "graph_inv es (g, dp)"
    and step: "place_node (g, dp) d k v = Inr (g', dp')"
  shows "graph_inv (es @ [(d, k, v)]) (g', dp')"
proof -
  obtain gin where gin: "nodes gin = nodes g"
    and add: "add_node gin k v d (d \<le> 1) (if d = 0 then None else dp (d - 1)) = Inr g'"
    and dp': "dp' = (if d = 0 then dp(0 \<mapsto> k)
                  else (\<lambda>i. if i > d then None else (dp(d \<mapsto> k)) i))"
    using place_node_cases [OF step] by blast
  define p where "p = (if d = 0 then None else dp (d - 1))"
  note add = add [folded p_def]
  have look: "\<And>x. map_of (nodes g') x =
      map_option (link_upd gin k p x) (with_new gin k v d (d \<le> 1) x)"
    by (rule add_node_lookup [OF add])
  have keys: "map fst (nodes g') =
      (if k \<in> set (map fst (nodes g)) then map fst (nodes g) else map fst (nodes g) @ [k])"
    using add_node_keys(2) [OF add] gin by simp
  from inv have i1: "distinct (map fst (nodes g))"
    and i2: "\<And>x. (map_of (nodes g) x = None) = (sighting es x = None)"
    and i3: "\<And>x n. map_of (nodes g) x = Some n \<Longrightarrow>
         ga n = x \<and> sighting es x = Some (depth n, x, version n) \<and>
         is_direct n = (depth n \<le> 1) \<and> distinct (parents n) \<and> distinct (children n) \<and>
         (\<forall>q \<in> set (parents n). sighting es q \<noteq> None)"
    and i4: "\<And>i q. dp i = Some q \<Longrightarrow> sighting es q \<noteq> None"
    by (auto simp: graph_inv_def)
  have p_sighted: "\<And>q. p = Some q \<Longrightarrow> sighting es q \<noteq> None"
    using i4 by (auto simp: p_def split: if_splits)
  have c1: "distinct (map fst (nodes g'))"
    using keys i1 by auto
  have c2: "\<And>x. (map_of (nodes g') x = None) = (sighting (es @ [(d, k, v)]) x = None)"
    using i2 gin by (auto simp: look with_new_None sighting_snoc split: option.splits)
  have c3: "ga n' = x \<and> sighting (es @ [(d, k, v)]) x = Some (depth n', x, version n') \<and>
         is_direct n' = (depth n' \<le> 1) \<and> distinct (parents n') \<and> distinct (children n') \<and>
         (\<forall>q \<in> set (parents n'). sighting (es @ [(d, k, v)]) q \<noteq> None)"
    if n': "map_of (nodes g') x = Some n'" for x n'
  proof -
    from n' obtain n where n: "with_new gin k v d (d \<le> 1) x = Some n"
      and n'_eq: "n' = link_upd gin k p x n"
      by (auto simp: look)
    have base: "ga n = x \<and> sighting (es @ [(d, k, v)]) x = Some (depth n, x, version n) \<and>
         is_direct n = (depth n \<le> 1) \<and> distinct (parents n) \<and> distinct (children n) \<and>
         (\<forall>q \<in> set (parents n). sighting es q \<noteq> None)"
      using with_new_cases [OF n]
    proof
      assume "x = k \<and> map_of (nodes gin) k = None \<and> n = new_node k v d (d \<le> 1)"
      then show ?thesis using i2 [of k] gin
        by (auto simp: new_node_def sighting_snoc)
    next
      assume "map_of (nodes gin) x = Some n"
      then show ?thesis using i3 [of x n] gin
        by (auto simp: sighting_snoc)
    qed
    have fresh: "x = k \<Longrightarrow> links gin k p \<Longrightarrow> the p \<notin> set (parents n)"
      using links_fresh n by blast
    have psight: "links gin k p \<Longrightarrow> sighting es (the p) \<noteq> None"
      using links_Some p_sighted by fastforce
    have mono: "\<And>q. sighting es q \<noteq> None \<Longrightarrow> sighting (es @ [(d, k, v)]) q \<noteq> None"
      by (auto simp: sighting_snoc)
    show ?thesis
      unfolding n'_eq link_upd_fields
      using base fresh psight mono by auto
  qed
  have c4: "sighting (es @ [(d, k, v)]) q \<noteq> None" if "dp' i = Some q" for i q
  proof -
    from that have "q = k \<or> dp i = Some q"
      by (auto simp: dp' split: if_splits)
    then show ?thesis
    proof
      assume "q = k"
      then show ?thesis by (simp add: sighting_snoc split: option.splits)
    next
      assume "dp i = Some q"
      then have "sighting es q \<noteq> None" by (rule i4)
      then show ?thesis by (auto simp: sighting_snoc)
    qed
  qed
  show ?thesis
    unfolding graph_inv_def using c1 c2 c3 c4 by auto
qed

lemma graph_inv_place_nodes:
  "graph_inv es st \<Longrightarrow> place_nodes st es' = Inr st' \<Longrightarrow> graph_inv (es @ es') st'"
proof (induction es' arbitrary: es st)
  case Nil
  then show ?case by simp
next
  case (Cons e es')
  obtain d k v where e: "e = (d, k, v)" by (cases e)
  obtain g dp where st: "st = (g, dp)" by (cases st)
  from Cons.prems(2) e obtain st1 where s1: "place_node st d k v = Inr st1"
    and s2: "place_nodes st1 es' = Inr st'"
    by (auto split: sum.splits)
  obtain g1 dp1 where st1: "st1 = (g1, dp1)" by (cases st1)
  have "graph_inv (es @ [(d, k, v)]) st1"
    using graph_inv_step [of es g dp d k v g1 dp1] Cons.prems(1) s1 st st1 by simp
  from Cons.IH [OF this s2] e show ?case by simp
qed

lemma scored_fields:
  "ga (scored m1 m2 n) = ga n"
  "version (scored m1 m2 n) = version n"
  "depth (scored m1 m2 n) = depth n"
  "is_direct (scored m1 m2 n) = is_direct n"
  "parents (scored m1 m2 n) = parents n"
  "children (scored m1 m2 n) = children n"
  by (simp_all add: scored_def)

lemma map_of_scored:
  "map_of (map (\<lambda>(k, n). (k, scored m1 m2 n)) ns) x = map_option (scored m1 m2) (map_of ns x)"
  by (induction ns) auto

lemma map_fst_scored: "map fst (map (\<lambda>(k, n). (k, scored m1 m2 n)) ns) = map fst ns"
  by (induction ns) auto

lemma tree_entries_ga_ok: "(d, k, v) \<in> set (tree_entries t) \<Longrightarrow> ga_ok k"
  by (auto simp: tree_entries_def List.map_filter_def dest: line_entry_ga_ok)



lemma parse_dependency_tree_struct:
  assumes "parse_dependency_tree t = Inr g"
  shows "\<exists>g0 dp m1 m2.
           place_nodes (empty_graph, Map.empty) (tree_entries t) = Inr (g0, dp) \<and>
           graph_inv (tree_entries t) (g0, dp) \<and>
           root_project g = root_project g0 \<and>
           nodes g = map (\<lambda>(k, n). (k, scored m1 m2 n)) (nodes g0)"
proof -
  obtain st where st: "place_nodes (empty_graph, Map.empty) (tree_entries t) = Inr st"
    using place_nodes_total by blast
  obtain g0 dp where gd: "st = (g0, dp)" by (cases st)
  have inv: "graph_inv (tree_entries t) (g0, dp)"
    using graph_inv_place_nodes [OF graph_inv_init, of "tree_entries t" st] st gd by simp
  from assms st gd have cs: "calculate_scores g0 = Inr g"
    by (simp add: parse_dependency_tree_def parse_tree_text_def parse_lines_entries
          tree_entries_def)
  show ?thesis
  proof (cases "nodes g0 = []")
    case True
    with cs have "g = g0" by (simp add: calculate_scores_eq)
    with True st gd inv show ?thesis by auto
  next
    case False
    with cs obtain m1 m2 where "g = g0\<lparr>nodes := map (\<lambda>(k, n). (k, scored m1 m2 n)) (nodes g0)\<rparr>"
      by (auto simp: calculate_scores_eq)
    with st gd inv show ?thesis by auto
  qed
qed

lemma parsed_graph_facts:
  assumes "parse_dependency_tree t = Inr g"
  shows "distinct (map fst (nodes g))"
    and "(map_of (nodes g) x = None) = (sighting (tree_entries t) x = None)"
    and "map_of (nodes g) x = Some n \<Longrightarrow>
           ga n = x \<and> sighting (tree_entries t) x = Some (depth n, x, version n) \<and>
           is_direct n = (depth n \<le> 1) \<and> distinct (parents n) \<and> distinct (children n) \<and>
           (\<forall>q \<in> set (parents n). sighting (tree_entries t) q \<noteq> None)"
proof -
  obtain g0 dp m1 m2 where
    inv: "graph_inv (tree_entries t) (g0, dp)"
    and ns: "nodes g = map (\<lambda>(k, n). (k, scored m1 m2 n)) (nodes g0)"
    using parse_dependency_tree_struct [OF assms] by blast
  show "distinct (map fst (nodes g))"
  proof -
    have "map fst (nodes g) = map fst (nodes g0)"
      unfolding ns by (rule map_fst_scored)
    moreover have "distinct (map fst (nodes g0))"
      using inv by (simp add: graph_inv_def)
    ultimately show ?thesis by (simp only:)
  qed
  show "(map_of (nodes g) x = None) = (sighting (tree_entries t) x = None)"
    using inv by (simp add: ns map_of_scored graph_inv_def)
  show "ga n = x \<and> sighting (tree_entries t) x = Some (depth n, x, version n) \<and>
           is_direct n = (depth n \<le> 1) \<and> distinct (parents n) \<and> distinct (children n) \<and>
           (\<forall>q \<in> set (parents n). sighting (tree_entries t) q \<noteq> None)"
    if "map_of (nodes g) x = Some n"
  proof -
    from that obtain n0 where n0: "map_of (nodes g0) x = Some n0" and n: "n = scored m1 m2 n0"
      by (auto simp: ns map_of_scored)
    from inv n0 have "ga n0 = x \<and> sighting (tree_entries t) x = Some (depth n0, x, version n0) \<and>
           is_direct n0 = (depth n0 \<le> 1) \<and> distinct (parents n0) \<and> distinct (children n0) \<and>
           (\<forall>q \<in> set (parents n0). sighting (tree_entries t) q \<noteq> None)"
      unfolding graph_inv_def by auto
    then show ?thesis by (simp add: n scored_fields)
  qed
qed


lemma map_of_None_keys: "(map_of xs k = None) = (k \<notin> set (map fst xs))"
  by (simp add: map_of_eq_None_iff)

lemma map_of_same_keys:
  "map fst xs = map fst ys \<Longrightarrow> map_of ys k = Some y \<Longrightarrow> \<exists>x. map_of xs k = Some x"
  using map_of_None_keys [of xs k] map_of_None_keys [of ys k] by auto

section \<open>The example trees\<close>

lemma sample_parse: "parse_dependency_tree sample_tree = Inr sample_graph"
  by code_simp

lemma two_roots_parse: "parse_dependency_tree two_roots_tree = Inr two_roots_graph"
  by code_simp

lemma orphan_parse: "parse_dependency_tree orphan_tree = Inr orphan_graph"
  by code_simp

lemma diamond_parse: "parse_dependency_tree diamond_tree = Inr diamond_graph"
  by code_simp

lemma diamond_prefix_state:
  "map_of (nodes (fst (projr (parse_lines (empty_graph, Map.empty) diamond_prefix))))
     (pystr ''org.example:lib'') =
   Some \<lparr>ga = pystr ''org.example:lib'', version = pystr ''3.0'', depth = 1, is_direct = True,
         parents = [pystr ''org.example:app''], children = [], centrality_score = 0,
         impact_score = 0\<rparr>"
  by code_simp

lemma diamond_last_entry: "line_entry diamond_last = Some (2, pystr ''org.example:lib'', pystr ''3.1'')"
  by code_simp

section \<open>Properties of the parser and of the strategy engine\<close>

lemma map_filter_append:
  "List.map_filter f (xs @ ys) = List.map_filter f xs @ List.map_filter f ys"
  by (simp add: List.map_filter_def)

text \<open>
  Claim C8. \<^verbatim>\<open>parse_tree_text\<close> returns a graph for every input text, whatever the
  graph held before: no operation in it raises. A line whose cleaned content splits at
  the colon into fewer than three parts yields no key, leaves the state of the loop as it
  was, and the parse of a text with such a line is the parse of the text without it.
\<close>

theorem parse_tree_text_never_raises:
  "(\<exists>g'. parse_tree_text g t = Inr g') \<and>
   (length (py_split 58 (clean_line l)) < 3 \<longrightarrow>
      extract_ga_version l = None \<and> parse_line st l = Inr st \<and>
      parse_lines st (ls1 @ l # ls2) = parse_lines st (ls1 @ ls2))"
proof (intro conjI impI)
  show "\<exists>g'. parse_tree_text g t = Inr g'" by (rule parse_tree_text_total)
next
  assume short: "length (py_split 58 (clean_line l)) < 3"
  then show none: "extract_ga_version l = None"
    by (simp add: extract_ga_version_def Let_def)
  then have entry: "line_entry l = None" by (simp add: line_entry_def)
  then show "parse_line st l = Inr st" by (simp add: parse_line_entry)
  from entry show "parse_lines st (ls1 @ l # ls2) = parse_lines st (ls1 @ ls2)"
    by (simp add: parse_lines_entries map_filter_append map_filter_simps)
qed

theorem parse_tree_text_never_raises_witness:
  "length (py_split 58 (clean_line ([TEE, HBAR, HBAR, 32] @ pystr ''junit:4.13 (test)''))) < 3 \<and>
   extract_ga_version ([TEE, HBAR, HBAR, 32] @ pystr ''junit:4.13 (test)'') = None \<and>
   parse_lines (empty_graph, Map.empty)
     [pystr ''org.example:app:1.0'', [TEE, HBAR, HBAR, 32] @ pystr ''junit:4.13 (test)'',
      [ELL, HBAR, HBAR, 32] @ pystr ''org.example:lib:2.0''] =
   parse_lines (empty_graph, Map.empty)
     [pystr ''org.example:app:1.0'', [ELL, HBAR, HBAR, 32] @ pystr ''org.example:lib:2.0''] \<and>
   (\<exists>g'. parse_tree_text empty_graph ([TEE, HBAR, HBAR, 32] @ pystr ''junit:4.13 (test)'') = Inr g')"
proof -
  have short:
    "length (py_split 58 (clean_line ([TEE, HBAR, HBAR, 32] @ pystr ''junit:4.13 (test)''))) < 3"
    by code_simp
  from parse_tree_text_never_raises
    [of empty_graph "[TEE, HBAR, HBAR, 32] @ pystr ''junit:4.13 (test)''"
        "[TEE, HBAR, HBAR, 32] @ pystr ''junit:4.13 (test)''" "(empty_graph, Map.empty)"
        "[pystr ''org.example:app:1.0'']" "[[ELL, HBAR, HBAR, 32] @ pystr ''org.example:lib:2.0'']"]
    short
  show ?thesis by simp
qed









section \<open>Properties of the scores and of the shape of the graph\<close>







text \<open>
  Claim C4, on the text with two lines at depth 0: the code makes the second of them the
  root project and the entry of the ancestor chain at depth 0, so that the line below it
  gets it as its parent. The claim says the first root line stays.
\<close>

theorem later_root_line_replaces_root:
  "parse_dependency_tree two_roots_tree = Inr two_roots_graph \<and>
   root_project two_roots_graph = Some (pystr ''org.example:other'') \<and>
   map_option parents (map_of (nodes two_roots_graph) (pystr ''org.example:lib'')) =
     Some [pystr ''org.example:other'']"
proof -
  have "map_option parents (map_of (nodes two_roots_graph) (pystr ''org.example:lib'')) =
     Some [pystr ''org.example:other'']"
    by code_simp
  then show ?thesis using two_roots_parse by (simp add: two_roots_graph_def)
qed

lemma tree_inv_first:
  assumes "place_node (empty_graph, Map.empty) 0 r v = Inr st" and "r \<noteq> []"
  shows "tree_inv r 0 st"
proof -
  obtain g' dp' where st: "st = (g', dp')" by (cases st)
  from place_node_cases [of empty_graph Map.empty 0 r v g' dp'] assms(1) st
  obtain gin where gin: "nodes gin = nodes empty_graph" "root_project gin = Some r"
    and add: "add_node gin r v 0 True None = Inr g'"
    and dp': "dp' = Map.empty(0 \<mapsto> r)"
    by auto
  have look: "\<And>x. map_of (nodes g') x = map_option (link_upd gin r None x) (with_new gin r v 0 True x)"
    by (rule add_node_lookup [OF add])
  have nolink: "\<not> links gin r None" by (simp add: links_def)
  have root: "root_project g' = Some r"
    using add_node_keys(1) [OF add] gin by simp
  show ?thesis
    unfolding tree_inv_def st
    using root dp' assms(2) gin
    by (auto simp: look link_upd_id [OF nolink] with_new_def new_node_def empty_graph_def
          split: if_splits)
qed

lemma tree_inv_step:
  assumes inv: "tree_inv r cur (g, dp)"
    and step: "place_node (g, dp) d k v = Inr (g', dp')"
    and d: "1 \<le> d" "d \<le> cur + 1" and k: "k \<noteq> r" "k \<noteq> []"
  shows "tree_inv r d (g', dp')"
proof -
  from d have d0: "d \<noteq> 0" by simp
  from place_node_cases [OF step] d0
  obtain gin where gin: "nodes gin = nodes g" "root_project gin = root_project g"
    and add: "add_node gin k v d (d \<le> 1) (dp (d - 1)) = Inr g'"
    and dp': "dp' = (\<lambda>i. if i > d then None else (dp(d \<mapsto> k)) i)"
    by auto
  from inv have root: "root_project g = Some r"
    and rnode: "\<exists>n. map_of (nodes g) r = Some n \<and> depth n = 0 \<and> parents n = []"
    and others: "\<And>x m. map_of (nodes g) x = Some m \<Longrightarrow> x \<noteq> r \<Longrightarrow> 1 \<le> depth m \<and> parents m \<noteq> []"
    and chain: "\<And>i. i \<le> cur \<Longrightarrow> \<exists>q. dp i = Some q \<and> q \<noteq> []"
    by (auto simp: tree_inv_def)
  from d have "d - 1 \<le> cur" by simp
  from chain [OF this] obtain q where q: "dp (d - 1) = Some q" "q \<noteq> []" by blast
  have look: "\<And>x. map_of (nodes g') x =
      map_option (link_upd gin k (Some q) x) (with_new gin k v d (d \<le> 1) x)"
    using add_node_lookup [OF add] q by simp
  have c1: "root_project g' = Some r"
    using add_node_keys(1) [OF add] gin root by simp
  have c2: "\<exists>n. map_of (nodes g') r = Some n \<and> depth n = 0 \<and> parents n = []"
    using rnode k(1) gin by (auto simp: look with_new_def link_upd_fields)
  have c3: "1 \<le> depth m' \<and> parents m' \<noteq> []"
    if m': "map_of (nodes g') x = Some m'" and x: "x \<noteq> r" for x m'
  proof -
    from m' obtain m where m: "with_new gin k v d (d \<le> 1) x = Some m"
      and m'_eq: "m' = link_upd gin k (Some q) x m"
      by (auto simp: look)
    from with_new_cases [OF m] show ?thesis
    proof
      assume new: "x = k \<and> map_of (nodes gin) k = None \<and> m = new_node k v d (d \<le> 1)"
      then have "links gin k (Some q)" using q(2) by (simp add: links_def)
      with new d show ?thesis by (simp add: m'_eq link_upd_fields new_node_def)
    next
      assume "map_of (nodes gin) x = Some m"
      with others [of x m] x gin have "1 \<le> depth m \<and> parents m \<noteq> []" by simp
      then show ?thesis by (simp add: m'_eq link_upd_fields)
    qed
  qed
  have c4: "\<exists>q'. dp' i = Some q' \<and> q' \<noteq> []" if "i \<le> d" for i
  proof (cases "i = d")
    case True
    then show ?thesis using k(2) by (simp add: dp')
  next
    case False
    with that d have "i \<le> cur" by simp
    from chain [OF this] False that show ?thesis by (simp add: dp')
  qed
  show ?thesis
    unfolding tree_inv_def using c1 c2 c3 c4 by auto
qed

lemma tree_inv_place_nodes:
  assumes "tree_inv r cur st" and "chain_ok r cur es" and "\<forall>e \<in> set es. fst (snd e) \<noteq> []"
    and "place_nodes st es = Inr st'"
  shows "\<exists>cur'. tree_inv r cur' st'"
  using assms
proof (induction es arbitrary: cur st)
  case Nil
  then show ?case by auto
next
  case (Cons e es)
  obtain d k v where e: "e = (d, k, v)" by (cases e)
  obtain g dp where st: "st = (g, dp)" by (cases st)
  from Cons.prems(4) e obtain st1 where s1: "place_node st d k v = Inr st1"
    and s2: "place_nodes st1 es = Inr st'"
    by (auto split: sum.splits)
  obtain g1 dp1 where st1: "st1 = (g1, dp1)" by (cases st1)
  from Cons.prems(2) e have d: "1 \<le> d" "d \<le> cur + 1" and k: "k \<noteq> r" and rest: "chain_ok r d es"
    by simp_all
  from Cons.prems(3) e have k2: "k \<noteq> []" and rest2: "\<forall>e \<in> set es. fst (snd e) \<noteq> []"
    by simp_all
  have "tree_inv r d st1"
    using tree_inv_step [of r cur g dp d k v g1 dp1] Cons.prems(1) s1 st st1 d k k2 by simp
  from Cons.IH [OF this rest rest2 s2] show ?case .
qed

lemma tree_entries_nonempty_keys: "\<forall>e \<in> set (tree_entries t). fst (snd e) \<noteq> []"
proof
  fix e assume e: "e \<in> set (tree_entries t)"
  obtain d k v where "e = (d, k, v)" by (cases e)
  with e tree_entries_ga_ok [of d k v t] show "fst (snd e) \<noteq> []"
    by (auto dest: ga_ok_not_Nil)
qed

text \<open>
  Claim C5, amended. For a well-formed tree the graph records the key of the first line
  as root, its node has depth 0 and no parent, and every other node has depth at least 1
  and at least one parent. (A line more than one level below the line before it has no
  chain entry to attach to and yields a node without a parent, see the counterexample.)
\<close>

theorem well_formed_tree_has_no_orphans:
  "well_formed_tree (tree_entries t) \<and> parse_dependency_tree t = Inr g \<longrightarrow>
     (\<exists>r n. root_project g = Some r \<and> map_of (nodes g) r = Some n \<and> depth n = 0 \<and>
            parents n = [] \<and>
            (\<forall>x m. map_of (nodes g) x = Some m \<and> x \<noteq> r \<longrightarrow> 1 \<le> depth m \<and> parents m \<noteq> []))"
proof
  assume h: "well_formed_tree (tree_entries t) \<and> parse_dependency_tree t = Inr g"
  then obtain r v rest where es: "tree_entries t = (0, r, v) # rest" and chain: "chain_ok r 0 rest"
    by (auto simp: well_formed_tree_def split: list.splits)
  from h obtain g0 dp m1 m2 where
    pl: "place_nodes (empty_graph, Map.empty) (tree_entries t) = Inr (g0, dp)"
    and rp: "root_project g = root_project g0"
    and ns: "nodes g = map (\<lambda>(k, n). (k, scored m1 m2 n)) (nodes g0)"
    using parse_dependency_tree_struct [of t g] by blast
  from pl es obtain st1 where s1: "place_node (empty_graph, Map.empty) 0 r v = Inr st1"
    and s2: "place_nodes st1 rest = Inr (g0, dp)"
    by (auto split: sum.splits)
  have keys: "\<forall>e \<in> set (tree_entries t). fst (snd e) \<noteq> []"
    by (rule tree_entries_nonempty_keys)
  with es have r: "r \<noteq> []" and keys': "\<forall>e \<in> set rest. fst (snd e) \<noteq> []" by simp_all
  from tree_inv_place_nodes [OF tree_inv_first [OF s1 r] chain keys' s2]
  obtain cur where inv: "tree_inv r cur (g0, dp)" by blast
  then obtain n0 where root: "root_project g0 = Some r"
    and n0: "map_of (nodes g0) r = Some n0" "depth n0 = 0" "parents n0 = []"
    and others: "\<And>x m. map_of (nodes g0) x = Some m \<Longrightarrow> x \<noteq> r \<Longrightarrow> 1 \<le> depth m \<and> parents m \<noteq> []"
    by (auto simp: tree_inv_def)
  have "\<forall>x m. map_of (nodes g) x = Some m \<and> x \<noteq> r \<longrightarrow> 1 \<le> depth m \<and> parents m \<noteq> []"
    using others by (auto simp: ns map_of_scored scored_fields)
  moreover have "map_of (nodes g) r = Some (scored m1 m2 n0)"
    using n0(1) by (simp add: ns map_of_scored)
  ultimately show "\<exists>r n. root_project g = Some r \<and> map_of (nodes g) r = Some n \<and> depth n = 0 \<and>
            parents n = [] \<and>
            (\<forall>x m. map_of (nodes g) x = Some m \<and> x \<noteq> r \<longrightarrow> 1 \<le> depth m \<and> parents m \<noteq> [])"
    using root rp n0 by (auto simp: scored_fields)
qed

theorem well_formed_tree_has_no_orphans_counterexample:
  "parse_dependency_tree orphan_tree = Inr orphan_graph \<and>
   root_project orphan_graph = Some (pystr ''org.example:app'') \<and>
   map_of (nodes orphan_graph) (pystr ''org.example:lib'') =
     Some \<lparr>ga = pystr ''org.example:lib'', version = pystr ''3.0'', depth = 2,
           is_direct = False, parents = [], children = [], centrality_score = 0,
           impact_score = 0\<rparr>"
proof -
  have "map_of (nodes orphan_graph) (pystr ''org.example:lib'') =
     Some \<lparr>ga = pystr ''org.example:lib'', version = pystr ''3.0'', depth = 2,
           is_direct = False, parents = [], children = [], centrality_score = 0,
           impact_score = 0\<rparr>"
    by code_simp
  then show ?thesis using orphan_parse by (simp add: orphan_graph_def)
qed

theorem well_formed_tree_has_no_orphans_witness:
  "well_formed_tree (tree_entries sample_tree) \<and>
   parse_dependency_tree sample_tree = Inr sample_graph \<and>
   root_project sample_graph = Some (pystr ''com.random-x:part-finder-service-api'') \<and>
   map_option depth (map_of (nodes sample_graph)
     (pystr ''org.apache.tomcat.embed:tomcat-embed-core'')) = Some 2 \<and>
   map_option parents (map_of (nodes sample_graph)
     (pystr ''org.apache.tomcat.embed:tomcat-embed-core'')) =
     Some [pystr ''org.springframework.boot:spring-boot-starter-tomcat'']"
proof -
  have wf: "well_formed_tree (tree_entries sample_tree)" by code_simp
  have r: "root_project sample_graph = Some (pystr ''com.random-x:part-finder-service-api'')"
    by (simp add: sample_graph_def)
  have d: "map_option depth (map_of (nodes sample_graph)
     (pystr ''org.apache.tomcat.embed:tomcat-embed-core'')) = Some 2" by code_simp
  have p: "map_option parents (map_of (nodes sample_graph)
     (pystr ''org.apache.tomcat.embed:tomcat-embed-core'')) =
     Some [pystr ''org.springframework.boot:spring-boot-starter-tomcat'']" by code_simp
  from well_formed_tree_has_no_orphans [of sample_tree sample_graph] wf sample_parse
  have "\<exists>r n. root_project sample_graph = Some r \<and> map_of (nodes sample_graph) r = Some n"
    by blast
  with wf sample_parse r d p show ?thesis by simp
qed









lemma links_nodes_cong: "nodes g1 = nodes g2 \<Longrightarrow> links g1 k p = links g2 k p"
  by (cases p) (simp_all add: links_def)

lemma link_upd_nodes_cong: "nodes g1 = nodes g2 \<Longrightarrow> link_upd g1 k p x = link_upd g2 k p x"
  by (rule ext) (simp add: link_upd_def links_nodes_cong [of g1 g2])

lemma later_sighting_step:
  assumes n: "map_of (nodes g) k = Some n" and entry: "line_entry l = Some (d, k, v)"
  shows "\<exists>g' dp'. parse_line (g, dp) l = Inr (g', dp') \<and>
           map fst (nodes g') = map fst (nodes g) \<and>
           (\<forall>x. map_of (nodes g') x =
                  map_option (link_upd g k (if d = 0 then None else dp (d - 1)) x)
                    (map_of (nodes g) x))"
proof -
  obtain st' where st': "place_node (g, dp) d k v = Inr st'"
    using place_node_total by blast
  obtain g' dp' where gd: "st' = (g', dp')" by (cases st')
  from place_node_cases [of g dp d k v g' dp'] st' gd
  obtain gin where gin: "nodes gin = nodes g"
    and add: "add_node gin k v d (d \<le> 1) (if d = 0 then None else dp (d - 1)) = Inr g'"
    by auto
  from n have present: "k \<in> set (map fst (nodes g))"
    by (metis map_of_eq_None_iff option.distinct(1) set_map)
  have keys: "map fst (nodes g') = map fst (nodes g)"
    using add_node_keys(2) [OF add] gin present by simp
  have wn: "\<And>x. with_new gin k v d (d \<le> 1) x = map_of (nodes g) x"
    using n gin by (simp add: with_new_def)
  have look: "\<And>x. map_of (nodes g') x =
      map_option (link_upd g k (if d = 0 then None else dp (d - 1)) x) (map_of (nodes g) x)"
    using add_node_lookup [OF add] by (simp only: wn link_upd_nodes_cong [OF gin])
  from st' gd entry keys look show ?thesis
    by (simp add: parse_line_entry)
qed

text \<open>
  Claim C3, amended. At every point of the parse a node has the depth and the version of
  the first sighting of its key, \<open>is_direct\<close> holds of it exactly when that depth is 0 or
  1, and its lists of parents and of children have no duplicates. A later sighting of the
  key, at any depth, adds no key to the graph and leaves the depth, version and
  \<open>is_direct\<close> of every node as they were; it appends the parent found in the ancestor
  chain to the parents of the node when it is not yet among them, and then the key to the
  children of that parent when it is not yet among those; nothing else changes. The same
  holds of the nodes of the finished graph.
\<close>

theorem first_sighting_fixes_node:
  "(parse_lines (empty_graph, Map.empty) ls = Inr (g, dp) \<and> map_of (nodes g) k = Some n \<longrightarrow>
      sighting (List.map_filter line_entry ls) k = Some (depth n, k, version n) \<and>
      is_direct n = (depth n \<le> 1) \<and> distinct (parents n) \<and> distinct (children n) \<and>
      (line_entry l = Some (d, k, v) \<longrightarrow>
         (\<exists>g' dp'. parse_line (g, dp) l = Inr (g', dp') \<and>
            map fst (nodes g') = map fst (nodes g) \<and>
            (\<forall>x m'. map_of (nodes g') x = Some m' \<longrightarrow>
               (\<exists>m. map_of (nodes g) x = Some m \<and> depth m' = depth m \<and>
                    version m' = version m \<and> is_direct m' = is_direct m \<and>
                    parents m' =
                      (if x = k \<and> links g k (if d = 0 then None else dp (d - 1))
                       then parents m @ [the (dp (d - 1))] else parents m) \<and>
                    children m' =
                      (if (if d = 0 then None else dp (d - 1)) = Some x \<and>
                          links g k (if d = 0 then None else dp (d - 1)) \<and>
                          k \<notin> set (children m)
                       then children m @ [k] else children m)))))) \<and>
   (parse_dependency_tree t = Inr gf \<and> map_of (nodes gf) k = Some nf \<longrightarrow>
      sighting (tree_entries t) k = Some (depth nf, k, version nf) \<and>
      is_direct nf = (depth nf \<le> 1) \<and> distinct (parents nf) \<and> distinct (children nf))"
proof (intro conjI impI)
  assume h: "parse_lines (empty_graph, Map.empty) ls = Inr (g, dp) \<and> map_of (nodes g) k = Some n"
  then have "place_nodes (empty_graph, Map.empty) (List.map_filter line_entry ls) = Inr (g, dp)"
    by (simp add: parse_lines_entries)
  from graph_inv_place_nodes [OF graph_inv_init this]
  have inv: "graph_inv (List.map_filter line_entry ls) (g, dp)" by simp
  with h have node: "sighting (List.map_filter line_entry ls) k = Some (depth n, k, version n) \<and>
      is_direct n = (depth n \<le> 1) \<and> distinct (parents n) \<and> distinct (children n)"
    unfolding graph_inv_def by auto
  from node show "sighting (List.map_filter line_entry ls) k = Some (depth n, k, version n)"
    and "is_direct n = (depth n \<le> 1)" and "distinct (parents n)" and "distinct (children n)"
    by simp_all
  assume entry: "line_entry l = Some (d, k, v)"
  define p where "p = (if d = 0 then None else dp (d - 1))"
  from later_sighting_step [OF conjunct2 [OF h] entry, of dp]
  obtain g' dp' where step: "parse_line (g, dp) l = Inr (g', dp')"
    and keys: "map fst (nodes g') = map fst (nodes g)"
    and look: "\<And>x. map_of (nodes g') x = map_option (link_upd g k p x) (map_of (nodes g) x)"
    unfolding p_def by blast
  have the_p: "links g k p \<Longrightarrow> the p = the (dp (d - 1))"
    by (auto simp: p_def links_def split: if_splits)
  have each: "\<exists>m. map_of (nodes g) x = Some m \<and> depth m' = depth m \<and>
                    version m' = version m \<and> is_direct m' = is_direct m \<and>
                    parents m' = (if x = k \<and> links g k p
                       then parents m @ [the (dp (d - 1))] else parents m) \<and>
                    children m' = (if p = Some x \<and> links g k p \<and> k \<notin> set (children m)
                       then children m @ [k] else children m)"
    if "map_of (nodes g') x = Some m'" for x m'
  proof -
    from that obtain m where m: "map_of (nodes g) x = Some m" and m': "m' = link_upd g k p x m"
      by (auto simp: look)
    show ?thesis
      using m the_p by (auto simp: m' link_upd_fields)
  qed
  show "\<exists>g' dp'. parse_line (g, dp) l = Inr (g', dp') \<and>
            map fst (nodes g') = map fst (nodes g) \<and>
            (\<forall>x m'. map_of (nodes g') x = Some m' \<longrightarrow>
               (\<exists>m. map_of (nodes g) x = Some m \<and> depth m' = depth m \<and>
                    version m' = version m \<and> is_direct m' = is_direct m \<and>
                    parents m' =
                      (if x = k \<and> links g k (if d = 0 then None else dp (d - 1))
                       then parents m @ [the (dp (d - 1))] else parents m) \<and>
                    children m' =
                      (if (if d = 0 then None else dp (d - 1)) = Some x \<and>
                          links g k (if d = 0 then None else dp (d - 1)) \<and>
                          k \<notin> set (children m)
                       then children m @ [k] else children m)))"
    unfolding p_def [symmetric]
    using step keys each by blast
next
  assume h: "parse_dependency_tree t = Inr gf \<and> map_of (nodes gf) k = Some nf"
  from parsed_graph_facts(3) [OF conjunct1 [OF h] conjunct2 [OF h]]
  show "sighting (tree_entries t) k = Some (depth nf, k, version nf)"
    and "is_direct nf = (depth nf \<le> 1)" and "distinct (parents nf)" and "distinct (children nf)"
    by simp_all
qed

theorem first_sighting_fixes_node_counterexample:
  "parse_dependency_tree diamond_tree = Inr diamond_graph \<and>
   map_option depth (map_of (nodes diamond_graph) (pystr ''org.example:app'')) = Some 0 \<and>
   map_option is_direct (map_of (nodes diamond_graph) (pystr ''org.example:app'')) = Some True"
proof -
  have "map_option depth (map_of (nodes diamond_graph) (pystr ''org.example:app'')) = Some 0"
    by code_simp
  moreover
  have "map_option is_direct (map_of (nodes diamond_graph) (pystr ''org.example:app'')) = Some True"
    by code_simp
  ultimately show ?thesis using diamond_parse by simp
qed

theorem first_sighting_fixes_node_witness:
  "(\<exists>g dp n g' dp' n'.
      parse_lines (empty_graph, Map.empty) diamond_prefix = Inr (g, dp) \<and>
      map_of (nodes g) (pystr ''org.example:lib'') = Some n \<and>
      depth n = 1 \<and> version n = pystr ''3.0'' \<and> is_direct n \<and>
      line_entry diamond_last = Some (2, pystr ''org.example:lib'', pystr ''3.1'') \<and>
      parse_line (g, dp) diamond_last = Inr (g', dp') \<and>
      map_of (nodes g') (pystr ''org.example:lib'') = Some n' \<and>
      depth n' = 1 \<and> version n' = pystr ''3.0'' \<and> is_direct n') \<and>
   parse_dependency_tree diamond_tree = Inr diamond_graph \<and>
   sighting (tree_entries diamond_tree) (pystr ''org.example:lib'') =
     Some (1, pystr ''org.example:lib'', pystr ''3.0'') \<and>
   map_option parents (map_of (nodes diamond_graph) (pystr ''org.example:lib'')) =
     Some [pystr ''org.example:app'', pystr ''org.example:web'']"
proof -
  define lib where "lib = pystr ''org.example:lib''"
  define n where "n = \<lparr>ga = pystr ''org.example:lib'', version = pystr ''3.0'', depth = 1,
         is_direct = True, parents = [pystr ''org.example:app''], children = [],
         centrality_score = 0, impact_score = 0\<rparr>"
  define nf where "nf = \<lparr>ga = pystr ''org.example:lib'', version = pystr ''3.0'', depth = 1,
           is_direct = True,
           parents = [pystr ''org.example:app'', pystr ''org.example:web''],
           children = [], centrality_score = 1, impact_score = 9 / 10\<rparr>"
  have n_fields: "depth n = 1" "version n = pystr ''3.0''" "is_direct n"
    by (simp_all add: n_def)
  have nf_fields: "depth nf = 1" "version nf = pystr ''3.0''"
    "parents nf = [pystr ''org.example:app'', pystr ''org.example:web'']"
    by (simp_all add: nf_def)
  obtain st where st: "parse_lines (empty_graph, Map.empty) diamond_prefix = Inr st"
    using place_nodes_total [of "(empty_graph, Map.empty)" "List.map_filter line_entry diamond_prefix"]
    unfolding parse_lines_entries by blast
  obtain g dp where gd: "st = (g, dp)" by (cases st)
  have n: "map_of (nodes g) lib = Some n"
    using diamond_prefix_state st gd by (simp add: lib_def n_def)
  have entry: "line_entry diamond_last = Some (2, lib, pystr ''3.1'')"
    using diamond_last_entry by (simp add: lib_def)
  have nf: "map_of (nodes diamond_graph) lib = Some nf"
    unfolding lib_def nf_def by code_simp
  note inst = first_sighting_fixes_node
    [of diamond_prefix g dp lib n diamond_last 2 "pystr ''3.1''" diamond_tree diamond_graph nf]
  have hyp: "parse_lines (empty_graph, Map.empty) diamond_prefix = Inr (g, dp) \<and>
      map_of (nodes g) lib = Some n"
    using st gd n by simp
  note a = inst [THEN conjunct1, THEN mp, OF hyp]
  note b = a [THEN conjunct2, THEN conjunct2, THEN conjunct2, THEN conjunct2, THEN mp, OF entry]
  from b obtain g' dp' where step: "parse_line (g, dp) diamond_last = Inr (g', dp')"
    and keys: "map fst (nodes g') = map fst (nodes g)"
    and each: "\<forall>x m'. map_of (nodes g') x = Some m' \<longrightarrow>
               (\<exists>m. map_of (nodes g) x = Some m \<and> depth m' = depth m \<and>
                    version m' = version m \<and> is_direct m' = is_direct m \<and>
                    parents m' =
                      (if x = lib \<and> links g lib (if (2::nat) = 0 then None else dp (2 - 1))
                       then parents m @ [the (dp (2 - 1))] else parents m) \<and>
                    children m' =
                      (if (if (2::nat) = 0 then None else dp (2 - 1)) = Some x \<and>
                          links g lib (if (2::nat) = 0 then None else dp (2 - 1)) \<and>
                          lib \<notin> set (children m)
                       then children m @ [lib] else children m))"
    by (elim exE conjE)
  obtain n' where n': "map_of (nodes g') lib = Some n'"
    using map_of_same_keys [OF keys n] by blast
  from each [rule_format, OF n'] obtain m where "map_of (nodes g) lib = Some m"
    and "depth n' = depth m" and "version n' = version m" and "is_direct n' = is_direct m"
    by (elim exE conjE)
  with n n_fields have same: "depth n' = 1" "version n' = pystr ''3.0''" "is_direct n'"
    by simp_all
  have first: "\<exists>g dp n g' dp' n'.
      parse_lines (empty_graph, Map.empty) diamond_prefix = Inr (g, dp) \<and>
      map_of (nodes g) lib = Some n \<and>
      depth n = 1 \<and> version n = pystr ''3.0'' \<and> is_direct n \<and>
      line_entry diamond_last = Some (2, lib, pystr ''3.1'') \<and>
      parse_line (g, dp) diamond_last = Inr (g', dp') \<and>
      map_of (nodes g') lib = Some n' \<and>
      depth n' = 1 \<and> version n' = pystr ''3.0'' \<and> is_direct n'"
    using hyp n_fields entry step n' same by blast
  have hyp2: "parse_dependency_tree diamond_tree = Inr diamond_graph \<and>
      map_of (nodes diamond_graph) lib = Some nf"
    using diamond_parse nf by simp
  note c = inst [THEN conjunct2, THEN mp, OF hyp2, THEN conjunct1]
  have second: "sighting (tree_entries diamond_tree) lib = Some (1, lib, pystr ''3.0'')"
    using c nf_fields by simp
  have third: "map_option parents (map_of (nodes diamond_graph) lib) =
      Some [pystr ''org.example:app'', pystr ''org.example:web'']"
    using nf nf_fields by simp
  from first second third diamond_parse show ?thesis
    unfolding lib_def by simp
qed

end
